theory Spec2Isabelle
  imports Main "HOL-Library.AList" "HOL-Library.Sublist"
begin

section \<open>The luigi pipeline of \<open>pipeline.py\<close>\<close>

text \<open>
  The module defines five luigi tasks (download, extract, split, trim columns, cleanup)
  and a wrapper task. This theory embeds their \<open>requires\<close>, \<open>output\<close> and \<open>run\<close> methods
  over an explicit file system, with every exception of the source as an error value.
\<close>

subsection \<open>Errors and library values\<close>

datatype error =
    OSError string
  | EmptyDataError
  | ParserError
  | KeyError "string list"
  | DownloadError
  | TarError

text \<open>
  A pandas data frame: its column labels and its rows of cells. A header-less parse
  (\<open>header=None\<close>) labels the columns by position, a parse with a header by name.
\<close>

datatype label = Name string | Pos nat

record df =
  columns :: "label list"
  rows :: "string list list"

text \<open>The \<open>header\<close> argument of \<open>pd.read_csv\<close>: \<open>None\<close> or \<open>'infer'\<close> (the default).\<close>

datatype header = NoHeader | Infer

text \<open>
  The two pandas calls the module makes with \<open>sep='\t'\<close> are library code: the parser
  \<open>pd.read_csv(buffer, sep='\t', header=h)\<close>, which may raise, and the printer
  \<open>df.to_csv(path, sep='\t', index=False)\<close>. They are parameters of the model.
\<close>

record pandas =
  read_csv :: "string \<Rightarrow> header \<Rightarrow> error + df"
  to_csv :: "df \<Rightarrow> string"

subsection \<open>Strings\<close>

definition newline :: char where
  "newline = CHR 0x0A"

text \<open>\<open>line.startswith('[')\<close>\<close>

fun startswith_bracket :: "string \<Rightarrow> bool" where
  "startswith_bracket [] = False"
| "startswith_bracket (c # cs) = (c = CHR ''['')"

text \<open>\<open>s.strip(chars)\<close>: drop the characters of \<open>chars\<close> from both ends.\<close>

definition strip :: "char list \<Rightarrow> string \<Rightarrow> string" where
  "strip chars s =
     rev (dropWhile (\<lambda>c. c \<in> set chars) (rev (dropWhile (\<lambda>c. c \<in> set chars) s)))"

text \<open>\<open>line.strip('[]\n')\<close>\<close>

definition section_name :: "string \<Rightarrow> string" where
  "section_name line = strip [CHR ''['', CHR '']'', newline] line"

text \<open>
  Iterating over a text file yields its lines, each with its terminating newline
  (the last line has none when the file does not end in one). The contents are the
  text as Python delivers it, with every line end already a single newline.
\<close>

fun lines_of :: "string \<Rightarrow> string list" where
  "lines_of [] = []"
| "lines_of (c # cs) =
     (if c = newline then [c] # lines_of cs
      else (case lines_of cs of [] \<Rightarrow> [[c]] | l # ls \<Rightarrow> (c # l) # ls))"

subsection \<open>The splitter: \<open>SplitTables._split_file\<close>\<close>

text \<open>
  The loop state: the dictionary \<open>dfs\<close> (insertion-ordered, so an association list
  updated in place), \<open>write_key\<close> (\<open>None\<close> at first) and the contents of the buffer
  \<open>fio\<close>. The test \<open>if write_key:\<close> is Python truthiness: \<open>None\<close> and the empty
  string are both false.
\<close>

type_synonym tables = "(string option \<times> df) list"

type_synonym split_state = "tables \<times> string option \<times> string"

fun truthy :: "string option \<Rightarrow> bool" where
  "truthy None = False"
| "truthy (Some s) = (s \<noteq> [])"

text \<open>\<open>header = None if write_key == 'Heading' else 'infer'\<close>\<close>

definition header_for :: "string option \<Rightarrow> header" where
  "header_for write_key = (if write_key = Some ''Heading'' then NoHeader else Infer)"

text \<open>The body of \<open>for line in f\<close>, lines 87 to 96; a failing parse ends the loop.\<close>

fun scan_lines :: "pandas \<Rightarrow> string list \<Rightarrow> split_state \<Rightarrow> error + split_state" where
  "scan_lines pd [] st = Inr st"
| "scan_lines pd (line # ls) (dfs, write_key, fio) =
     (if startswith_bracket line then
        (if truthy write_key then
           (case read_csv pd fio (header_for write_key) of
              Inl e \<Rightarrow> Inl e
            | Inr d \<Rightarrow>
                scan_lines pd ls (AList.update write_key d dfs, Some (section_name line), []))
         else scan_lines pd ls (dfs, Some (section_name line), []))
      else if truthy write_key then scan_lines pd ls (dfs, write_key, fio @ line)
      else scan_lines pd ls (dfs, write_key, fio))"

text \<open>
  Lines 81 to 99: the loop from the empty state, then the parse of the last buffer,
  always with the default header and stored under \<open>write_key\<close> whatever it is.
\<close>

definition parse_tables :: "pandas \<Rightarrow> string list \<Rightarrow> error + tables" where
  "parse_tables pd ls =
     (case scan_lines pd ls ([], None, []) of
        Inl e \<Rightarrow> Inl e
      | Inr (dfs, write_key, fio) \<Rightarrow>
          (case read_csv pd fio Infer of
             Inl e \<Rightarrow> Inl e
           | Inr d \<Rightarrow> Inr (AList.update write_key d dfs)))"

subsection \<open>Paths and the file system\<close>

text \<open>\<open>s.startswith(p)\<close> and \<open>s.endswith(p)\<close>\<close>

definition startswith :: "string \<Rightarrow> string \<Rightarrow> bool" where
  "startswith s p = (take (length p) s = p)"

definition endswith :: "string \<Rightarrow> string \<Rightarrow> bool" where
  "endswith s p = (take (length p) (rev s) = rev p)"

text \<open>
  \<open>os.path.join(a, b)\<close> of \<open>posixpath\<close>: an absolute \<open>b\<close> replaces \<open>a\<close>, otherwise
  the two are joined by one slash.
\<close>

definition os_path_join :: "string \<Rightarrow> string \<Rightarrow> string" where
  "os_path_join a b =
     (if startswith b ''/'' then b
      else if a = [] \<or> endswith a ''/'' then a @ b
      else a @ ''/'' @ b)"

text \<open>
  The file system is a table from path strings to nodes. Paths are compared as
  strings: there is no normalisation, no link and no permission in the model; the
  working directory and the root always exist.
\<close>

datatype node = File string | Dir

type_synonym fs = "(string \<times> node) list"

type_synonym 'a io = "fs \<Rightarrow> (error + 'a) \<times> fs"

text \<open>An exception leaves the file system as it was when it was raised.\<close>

definition bind_io :: "'a io \<Rightarrow> ('a \<Rightarrow> 'b io) \<Rightarrow> 'b io" where
  "bind_io m f s = (case m s of (Inl e, s') \<Rightarrow> (Inl e, s') | (Inr x, s') \<Rightarrow> f x s')"

definition raise_io :: "error \<Rightarrow> 'a io" where
  "raise_io e s = (Inl e, s)"

definition return_io :: "'a \<Rightarrow> 'a io" where
  "return_io x s = (Inr x, s)"

text \<open>\<open>os.path.exists(p)\<close>, which is what \<open>LocalTarget.exists\<close> asks.\<close>

definition path_exists :: "fs \<Rightarrow> string \<Rightarrow> bool" where
  "path_exists s p = (map_of s p \<noteq> None)"

text \<open>\<open>os.path.dirname(p)\<close>\<close>

definition dirname :: "string \<Rightarrow> string" where
  "dirname p =
     (let h = rev (dropWhile (\<lambda>c. c \<noteq> CHR ''/'') (rev p))
      in if set h \<subseteq> {CHR ''/''} then h
         else rev (dropWhile (\<lambda>c. c = CHR ''/'') (rev h)))"

text \<open>The directory a new entry is created in must exist.\<close>

definition parent_is_dir :: "fs \<Rightarrow> string \<Rightarrow> bool" where
  "parent_is_dir s p =
     (set (dirname p) \<subseteq> {CHR ''/''} \<or> map_of s (dirname p) = Some Dir)"

text \<open>
  The prefixes of a path that name it and its ancestors, outermost first:
  \<open>data/x/y\<close> gives \<open>data\<close>, \<open>data/x\<close>, \<open>data/x/y\<close>.
\<close>

fun path_prefixes :: "string \<Rightarrow> string \<Rightarrow> string list" where
  "path_prefixes acc [] = (if acc = [] \<or> endswith acc ''/'' then [] else [acc])"
| "path_prefixes acc (c # cs) =
     (if c = CHR ''/'' \<and> acc \<noteq> [] \<and> \<not> endswith acc ''/''
      then acc # path_prefixes (acc @ [c]) cs
      else path_prefixes (acc @ [c]) cs)"

fun mkdir_all :: "string list \<Rightarrow> unit io" where
  "mkdir_all [] s = (Inr (), s)"
| "mkdir_all (q # qs) s =
     (case map_of s q of
        Some Dir \<Rightarrow> mkdir_all qs s
      | Some (File c) \<Rightarrow> (Inl (OSError q), s)
      | None \<Rightarrow> mkdir_all qs (AList.update q Dir s))"

text \<open>
  \<open>os.makedirs(p, exist_ok=True)\<close>: create the missing ancestors and \<open>p\<close>; an
  existing directory is accepted, a file in the way is an error.
\<close>

definition makedirs :: "string \<Rightarrow> unit io" where
  "makedirs p = mkdir_all (path_prefixes [] p)"

text \<open>The entry of directory \<open>d\<close> that the path \<open>q\<close> names, if it names one.\<close>

definition child_name :: "string \<Rightarrow> string \<Rightarrow> string option" where
  "child_name d q =
     (let n = drop (length d + 1) q
      in if take (length d + 1) q = d @ ''/'' \<and> n \<noteq> [] \<and> CHR ''/'' \<notin> set n
         then Some n else None)"

text \<open>
  \<open>os.listdir(d)\<close>: the names of the entries of \<open>d\<close>, each once, in the order the
  table holds them (the order of the real call is arbitrary).
\<close>

definition listdir :: "string \<Rightarrow> string list io" where
  "listdir d s =
     (if map_of s d = Some Dir
      then (Inr (remdups (List.map_filter (child_name d) (map fst s))), s)
      else (Inl (OSError d), s))"

text \<open>\<open>os.remove(p)\<close>: only a file can be removed.\<close>

definition remove :: "string \<Rightarrow> unit io" where
  "remove p s =
     (case map_of s p of
        Some (File c) \<Rightarrow> (Inr (), AList.delete p s)
      | _ \<Rightarrow> (Inl (OSError p), s))"

text \<open>Opening \<open>p\<close> for reading and reading it all.\<close>

definition read_file :: "string \<Rightarrow> string io" where
  "read_file p s =
     (case map_of s p of
        Some (File c) \<Rightarrow> (Inr c, s)
      | _ \<Rightarrow> (Inl (OSError p), s))"

text \<open>Opening \<open>p\<close> for writing (created or truncated) and writing \<open>c\<close>.\<close>

definition write_file :: "string \<Rightarrow> string \<Rightarrow> unit io" where
  "write_file p c s =
     (if map_of s p = Some Dir \<or> \<not> parent_is_dir s p then (Inl (OSError p), s)
      else (Inr (), AList.update p (File c) s))"

text \<open>A \<open>for\<close> loop over a list whose body has effects and may raise.\<close>

fun for_each :: "'a list \<Rightarrow> ('a \<Rightarrow> unit io) \<Rightarrow> unit io" where
  "for_each [] body s = (Inr (), s)"
| "for_each (x # xs) body s =
     (case body x s of
        (Inl e, s') \<Rightarrow> (Inl e, s')
      | (Inr u, s') \<Rightarrow> for_each xs body s')"

subsection \<open>The collaborators\<close>

text \<open>
  What the module calls and does not define: \<open>wget.download\<close> (the bytes behind a URL,
  or a failure; the bytes are written to the path given as \<open>out\<close>), \<open>tarfile\<close> (the
  member files of an archive, each a relative name and its contents, or a failure) and
  pandas.
\<close>

record env =
  wget :: "string \<Rightarrow> error + string"
  tarfile :: "string \<Rightarrow> error + (string \<times> string) list"
  pandas_of :: pandas

text \<open>
  \<open>DataFrame.drop(columns=labels)\<close> with the default \<open>errors='raise'\<close>: a label that
  is not a column raises \<open>KeyError\<close>; otherwise the labelled columns go and the others
  keep their order.
\<close>

definition drop_columns :: "string list \<Rightarrow> df \<Rightarrow> error + df" where
  "drop_columns labels d =
     (let missing = filter (\<lambda>l. Name l \<notin> set (columns d)) labels
      in if missing \<noteq> [] then Inl (KeyError missing)
         else Inr \<lparr>columns = filter (\<lambda>c. c \<notin> set (map Name labels)) (columns d),
                   rows = map (\<lambda>r. map snd (filter (\<lambda>(c, v). c \<notin> set (map Name labels))
                                                    (zip (columns d) r)))
                              (rows d)\<rparr>)"

subsection \<open>Constants and output targets\<close>

definition DATA_DIR :: string where
  "DATA_DIR = ''data''"

definition COLUMNS_TO_DROP :: "string list" where
  "COLUMNS_TO_DROP =
     [''Definition'', ''Ontology_Component'', ''Ontology_Process'',
      ''Ontology_Function'', ''Synonyms'', ''Obsolete_Probe_Id'', ''Probe_Sequence'']"

datatype stage =
  DownloadDataset | ExtractArchive | SplitTables | RemoveColumns | Cleanup | Pipeline

text \<open>The \<open>requires\<close> method of each task; the dataset name is passed on unchanged.\<close>

fun requires :: "stage \<Rightarrow> stage option" where
  "requires DownloadDataset = None"
| "requires ExtractArchive = Some DownloadDataset"
| "requires SplitTables = Some ExtractArchive"
| "requires RemoveColumns = Some SplitTables"
| "requires Cleanup = Some RemoveColumns"
| "requires Pipeline = Some Cleanup"

text \<open>
  The \<open>output\<close> method of each task. \<open>Cleanup.output\<close> joins the marker's name to
  \<open>self.input().path\<close>, the output of the task it requires. The wrapper has none.
\<close>

definition download_output :: "string \<Rightarrow> string" where
  "download_output ds = os_path_join DATA_DIR (ds @ ''_RAW.tar'')"

definition extract_output :: "string \<Rightarrow> string" where
  "extract_output ds = os_path_join DATA_DIR (ds @ ''_extracted'')"

definition split_output :: "string \<Rightarrow> string" where
  "split_output ds = os_path_join DATA_DIR (ds @ ''_split'')"

definition final_output :: "string \<Rightarrow> string" where
  "final_output ds = os_path_join DATA_DIR (ds @ ''_final'')"

definition cleanup_output :: "string \<Rightarrow> string" where
  "cleanup_output ds = os_path_join (final_output ds) ''cleanup_complete.txt''"

fun output_path :: "string \<Rightarrow> stage \<Rightarrow> string option" where
  "output_path ds DownloadDataset = Some (download_output ds)"
| "output_path ds ExtractArchive = Some (extract_output ds)"
| "output_path ds SplitTables = Some (split_output ds)"
| "output_path ds RemoveColumns = Some (final_output ds)"
| "output_path ds Cleanup = Some (cleanup_output ds)"
| "output_path ds Pipeline = None"

subsection \<open>The \<open>run\<close> methods\<close>

definition download_url :: "string \<Rightarrow> string" where
  "download_url ds =
     ''https://www.ncbi.nlm.nih.gov/geo/download/?acc='' @ ds @ ''&format=file''"

definition download_run :: "env \<Rightarrow> string \<Rightarrow> unit io" where
  "download_run ev ds =
     bind_io (makedirs DATA_DIR) (\<lambda>_.
       case wget ev (download_url ds) of
         Inl e \<Rightarrow> raise_io e
       | Inr bytes \<Rightarrow> write_file (download_output ds) bytes)"

text \<open>\<open>tar.extractall(path=d)\<close>: every member is created under \<open>d\<close>.\<close>

definition extractall :: "string \<Rightarrow> (string \<times> string) list \<Rightarrow> unit io" where
  "extractall d members =
     for_each members (\<lambda>(name, contents).
       bind_io (makedirs (dirname (os_path_join d name))) (\<lambda>_.
         write_file (os_path_join d name) contents))"

definition extract_run :: "env \<Rightarrow> string \<Rightarrow> unit io" where
  "extract_run ev ds =
     bind_io (makedirs (extract_output ds)) (\<lambda>_.
     bind_io (read_file (download_output ds)) (\<lambda>bytes.
       case tarfile ev bytes of
         Inl e \<Rightarrow> raise_io e
       | Inr members \<Rightarrow> extractall (extract_output ds) members))"

text \<open>\<open>f"{key}.tsv"\<close>: the key \<open>None\<close> is formatted as the text \<open>None\<close>.\<close>

fun tsv_name :: "string option \<Rightarrow> string" where
  "tsv_name None = ''None.tsv''"
| "tsv_name (Some k) = k @ ''.tsv''"

text \<open>Lines 101 to 103: one file for each entry of \<open>dfs\<close>, in the dictionary's order.\<close>

definition write_tables :: "pandas \<Rightarrow> string \<Rightarrow> tables \<Rightarrow> unit io" where
  "write_tables p ds dfs =
     for_each dfs (\<lambda>(key, d).
       write_file (os_path_join (split_output ds) (tsv_name key)) (to_csv p d))"

definition split_file :: "pandas \<Rightarrow> string \<Rightarrow> string \<Rightarrow> unit io" where
  "split_file p ds filepath =
     bind_io (read_file filepath) (\<lambda>text.
       case parse_tables p (lines_of text) of
         Inl e \<Rightarrow> raise_io e
       | Inr dfs \<Rightarrow> write_tables p ds dfs)"

definition split_run :: "env \<Rightarrow> string \<Rightarrow> unit io" where
  "split_run ev ds =
     bind_io (makedirs (split_output ds)) (\<lambda>_.
     bind_io (listdir (extract_output ds)) (\<lambda>names.
       for_each (filter (\<lambda>filename. endswith filename ''.txt'') names) (\<lambda>filename.
         split_file (pandas_of ev) ds (os_path_join (extract_output ds) filename))))"

definition remove_columns_run :: "env \<Rightarrow> string \<Rightarrow> unit io" where
  "remove_columns_run ev ds =
     bind_io (makedirs (final_output ds)) (\<lambda>_.
     bind_io (read_file (os_path_join (split_output ds) ''Probes.tsv'')) (\<lambda>text.
       case read_csv (pandas_of ev) text Infer of
         Inl e \<Rightarrow> raise_io e
       | Inr d \<Rightarrow>
           (case drop_columns COLUMNS_TO_DROP d of
              Inl e \<Rightarrow> raise_io e
            | Inr d' \<Rightarrow>
                write_file (os_path_join (final_output ds) ''Probes_trimmed.tsv'')
                  (to_csv (pandas_of ev) d'))))"

text \<open>
  \<open>Cleanup.run\<close> lists and empties \<open>self.input().path\<close>, which is the output of
  \<open>RemoveColumns\<close>, and writes the marker there.
\<close>

definition cleanup_run :: "env \<Rightarrow> string \<Rightarrow> unit io" where
  "cleanup_run ev ds =
     bind_io (listdir (final_output ds)) (\<lambda>names.
     bind_io (for_each (filter (\<lambda>filename. endswith filename ''.txt'') names) (\<lambda>filename.
                remove (os_path_join (final_output ds) filename))) (\<lambda>_.
       write_file (cleanup_output ds) ''Cleanup completed successfully''))"

text \<open>The wrapper task defines no \<open>run\<close>: it does nothing.\<close>

fun run :: "env \<Rightarrow> string \<Rightarrow> stage \<Rightarrow> unit io" where
  "run ev ds DownloadDataset = download_run ev ds"
| "run ev ds ExtractArchive = extract_run ev ds"
| "run ev ds SplitTables = split_run ev ds"
| "run ev ds RemoveColumns = remove_columns_run ev ds"
| "run ev ds Cleanup = cleanup_run ev ds"
| "run ev ds Pipeline = return_io ()"

subsection \<open>The orchestrator\<close>

text \<open>
  Modelled from the spec: the orchestrator is the scheduler of the luigi library, which
  the module calls and does not contain. Section 4.2 of the specification: build the
  chain of stages by walking the \<open>requires\<close> links backward from the final stage to the
  root, then execute the stages in chain order, root first; a stage whose output target
  already exists is skipped, otherwise its \<open>run\<close> action is invoked; a failing \<open>run\<close>
  aborts the remaining chain. The wrapper stage has no output target and no action of
  its own, so there is nothing to execute for it. The result is the list of the stages
  that were run, the outcome and the file system.
\<close>

fun stage_rank :: "stage \<Rightarrow> nat" where
  "stage_rank DownloadDataset = 0"
| "stage_rank ExtractArchive = 1"
| "stage_rank SplitTables = 2"
| "stage_rank RemoveColumns = 3"
| "stage_rank Cleanup = 4"
| "stage_rank Pipeline = 5"

function resolve_chain :: "stage \<Rightarrow> stage list" where
  "resolve_chain t =
     (case requires t of None \<Rightarrow> [t] | Some u \<Rightarrow> resolve_chain u @ [t])"
  by pat_completeness auto
termination
  by (relation "measure stage_rank") (auto elim: requires.elims)

fun run_chain :: "env \<Rightarrow> string \<Rightarrow> stage list \<Rightarrow> fs \<Rightarrow> stage list \<times> (error + unit) \<times> fs" where
  "run_chain ev ds [] s = ([], Inr (), s)"
| "run_chain ev ds (t # ts) s =
     (case output_path ds t of
        None \<Rightarrow> run_chain ev ds ts s
      | Some p \<Rightarrow>
          if path_exists s p then run_chain ev ds ts s
          else (case run ev ds t s of
                  (Inl e, s') \<Rightarrow> ([t], Inl e, s')
                | (Inr u, s') \<Rightarrow>
                    (case run_chain ev ds ts s' of (tr, r, s'') \<Rightarrow> (t # tr, r, s''))))"

definition orchestrate :: "env \<Rightarrow> string \<Rightarrow> stage \<Rightarrow> fs \<Rightarrow> stage list \<times> (error + unit) \<times> fs" where
  "orchestrate ev ds final s = run_chain ev ds (resolve_chain final) s"

subsection \<open>A small instance of the collaborators\<close>

text \<open>
  A plain tab-separated reader and printer, used to run the model on concrete files:
  one row for each line, the cells between tabs; the first row names the columns
  unless the parse is header-less; an empty buffer is rejected.
\<close>

definition tab :: char where
  "tab = CHR 0x09"

fun split_on :: "char \<Rightarrow> string \<Rightarrow> string list" where
  "split_on sep [] = [[]]"
| "split_on sep (c # cs) =
     (if c = sep then [] # split_on sep cs
      else (case split_on sep cs of [] \<Rightarrow> [[c]] | w # ws \<Rightarrow> (c # w) # ws))"

definition tsv_read :: "string \<Rightarrow> header \<Rightarrow> error + df" where
  "tsv_read text h =
     (case map (\<lambda>l. split_on tab (takeWhile (\<lambda>c. c \<noteq> newline) l)) (lines_of text) of
        [] \<Rightarrow> Inl EmptyDataError
      | r # rs \<Rightarrow>
          (case h of
             Infer \<Rightarrow> Inr \<lparr>columns = map Name r, rows = rs\<rparr>
           | NoHeader \<Rightarrow> Inr \<lparr>columns = map Pos [0..<length r], rows = r # rs\<rparr>))"

fun join_with :: "string \<Rightarrow> string list \<Rightarrow> string" where
  "join_with sep [] = []"
| "join_with sep [x] = x"
| "join_with sep (x # y # ys) = x @ sep @ join_with sep (y # ys)"

text \<open>Decimal digits, least significant first, and their successor.\<close>

fun succ_digits :: "nat list \<Rightarrow> nat list" where
  "succ_digits [] = [1]"
| "succ_digits (d # ds) = (if d = 9 then 0 # succ_digits ds else Suc d # ds)"

fun digits_of :: "nat \<Rightarrow> nat list" where
  "digits_of 0 = [0]"
| "digits_of (Suc n) = succ_digits (digits_of n)"

definition show_nat :: "nat \<Rightarrow> string" where
  "show_nat n = rev (map (\<lambda>d. ''0123456789'' ! d) (digits_of n))"

fun label_text :: "label \<Rightarrow> string" where
  "label_text (Name n) = n"
| "label_text (Pos i) = show_nat i"

definition tsv_write :: "df \<Rightarrow> string" where
  "tsv_write d =
     concat (map (\<lambda>r. join_with [tab] r @ [newline]) (map label_text (columns d) # rows d))"

definition tsv_pandas :: pandas where
  "tsv_pandas = \<lparr>read_csv = tsv_read, to_csv = tsv_write\<rparr>"

text \<open>
  An archive with one text file of two sections, and collaborators that deliver it.
\<close>

definition sample_text :: string where
  "sample_text =
     ''[Heading]'' @ [newline] @
     join_with [tab] [''Platform'', ''X''] @ [newline] @
     ''[Probes]'' @ [newline] @
     join_with [tab] [''Probe_Id'', ''Definition'', ''Ontology_Component'', ''Ontology_Process'',
       ''Ontology_Function'', ''Synonyms'', ''Obsolete_Probe_Id'', ''GeneSymbol'',
       ''Probe_Sequence''] @ [newline] @
     join_with [tab] [''p1'', ''d'', ''oc'', ''op'', ''of'', ''sy'', ''ob'', ''g1'', ''ACGT''] @
     [newline]"

definition sample_env :: env where
  "sample_env =
     \<lparr>wget = (\<lambda>url. Inr ''archive''),
      tarfile = (\<lambda>bytes. Inr [(''GPL.txt'', sample_text)]),
      pandas_of = tsv_pandas\<rparr>"

text \<open>The file system after a split that wrote the given \<open>Probes.tsv\<close>.\<close>

definition fs_with_probes :: "string \<Rightarrow> fs" where
  "fs_with_probes contents =
     [(''data'', Dir), (''data/GSE1_split'', Dir),
      (''data/GSE1_split/Probes.tsv'', File contents)]"

definition probes_five_columns :: string where
  "probes_five_columns =
     join_with [tab] [''Probe_Id'', ''Definition'', ''Ontology_Component'', ''GeneSymbol'',
       ''Probe_Sequence''] @ [newline] @
     join_with [tab] [''p1'', ''d'', ''oc'', ''g1'', ''ACGT''] @ [newline]"

definition probes_all_columns :: string where
  "probes_all_columns =
     join_with [tab] [''Probe_Id'', ''Definition'', ''Ontology_Component'', ''Ontology_Process'',
       ''Ontology_Function'', ''Synonyms'', ''Obsolete_Probe_Id'', ''GeneSymbol'',
       ''Probe_Sequence''] @ [newline] @
     join_with [tab] [''p1'', ''d'', ''oc'', ''op'', ''of'', ''sy'', ''ob'', ''g1'', ''ACGT''] @
     [newline]"

text \<open>
  A file system with a text file in the extracted, the split and the final directory.
\<close>

definition fs_before_cleanup :: fs where
  "fs_before_cleanup =
     [(''data'', Dir),
      (''data/GSE1_extracted'', Dir),
      (''data/GSE1_extracted/GPL.txt'', File ''src''),
      (''data/GSE1_split'', Dir),
      (''data/GSE1_split/notes.txt'', File ''n''),
      (''data/GSE1_final'', Dir),
      (''data/GSE1_final/Probes_trimmed.tsv'', File ''t''),
      (''data/GSE1_final/log.txt'', File ''l'')]"

text \<open>
  A reader that returns an empty table for an empty buffer where \<open>tsv_read\<close> rejects it.
\<close>

definition lenient_read :: "string \<Rightarrow> header \<Rightarrow> error + df" where
  "lenient_read contents h =
     (if contents = [] then Inr \<lparr>columns = [], rows = []\<rparr> else tsv_read contents h)"

definition lenient_pandas :: pandas where
  "lenient_pandas = \<lparr>read_csv = lenient_read, to_csv = tsv_write\<rparr>"

text \<open>
  An extracted directory with a text file that has no marker line, listed first, and a
  text file with one section.
\<close>

definition no_marker_text :: string where
  "no_marker_text = ''x'' @ [tab] @ ''y'' @ [newline] @ ''1'' @ [tab] @ ''2''"

definition fs_no_marker :: fs where
  "fs_no_marker =
     [(''data'', Dir), (''data/GSE1_extracted'', Dir),
      (''data/GSE1_extracted/a.txt'', File no_marker_text),
      (''data/GSE1_extracted/b.txt'', File (''[T]'' @ [newline] @ ''c'' @ [newline] @ ''1'')),
      (''data/GSE1_split'', Dir)]"



text \<open>An extracted text file whose last line is a marker line.\<close>

definition trailing_marker_text :: string where
  "trailing_marker_text = ''[A]'' @ [newline] @ ''x'' @ [newline] @ ''[B]''"

definition fs_trailing_marker :: fs where
  "fs_trailing_marker =
     [(''data'', Dir), (''data/GSE1_extracted'', Dir),
      (''data/GSE1_extracted/a.txt'', File trailing_marker_text)]"

text \<open>The file system once the archive has been downloaded.\<close>

definition fs_downloaded :: fs where
  "fs_downloaded = [(''data'', Dir), (''data/GSE1_RAW.tar'', File ''archive'')]"

subsection \<open>Growth of the file system\<close>

text \<open>
  Every path that exists before exists after; an action is growing when that holds
  for every run of it, failed or not.
\<close>

definition fs_le :: "fs \<Rightarrow> fs \<Rightarrow> bool" where
  "fs_le s s' = (\<forall>p. path_exists s p \<longrightarrow> path_exists s' p)"

definition io_le :: "'a io \<Rightarrow> bool" where
  "io_le m = (\<forall>s. fs_le s (snd (m s)))"

section \<open>Properties of the splitter\<close>

lemma scan_lines_append:
  "scan_lines pd (xs @ ys) st =
     (case scan_lines pd xs st of Inl e \<Rightarrow> Inl e | Inr st' \<Rightarrow> scan_lines pd ys st')"
proof (induction xs arbitrary: st)
  case Nil
  show ?case by simp
next
  case (Cons x xs)
  obtain dfs wk fio where st: "st = (dfs, wk, fio)" by (cases st)
  show ?case unfolding st by (simp add: Cons.IH split: sum.splits)
qed

lemma scan_lines_body:
  assumes "\<forall>l \<in> set body. \<not> startswith_bracket l"
  shows "scan_lines pd body (dfs, wk, fio) =
           Inr (dfs, wk, if truthy wk then fio @ concat body else fio)"
  using assms by (induction body arbitrary: fio) auto

lemma scan_lines_marker_state:
  assumes "startswith_bracket m" and "scan_lines pd (pre @ [m]) st0 = Inr (dfs, wk, fio)"
  shows "wk = Some (section_name m) \<and> fio = []"
proof -
  obtain dfs0 wk0 fio0 where pre: "scan_lines pd pre st0 = Inr (dfs0, wk0, fio0)"
    using assms(2) by (auto simp: scan_lines_append split: sum.splits)
  then have "scan_lines pd [m] (dfs0, wk0, fio0) = Inr (dfs, wk, fio)"
    using assms(2) by (simp add: scan_lines_append)
  then show ?thesis
    using assms(1) by (auto split: if_splits sum.splits)
qed

lemma io_simps [simp]:
  "bind_io m f s = (case m s of (Inl e, s') \<Rightarrow> (Inl e, s') | (Inr x, s') \<Rightarrow> f x s')"
  "raise_io e s = (Inl e, s)"
  "return_io x s = (Inr x, s)"
  by (simp_all add: bind_io_def raise_io_def return_io_def)

lemma parse_tables_trailing_marker:
  assumes "startswith_bracket m" and "read_csv p [] Infer = Inl e"
  shows "\<exists>e'. parse_tables p (pre @ [m]) = Inl e'"
proof (cases "scan_lines p (pre @ [m]) ([], None, [])")
  case (Inl e')
  then show ?thesis by (simp add: parse_tables_def)
next
  case (Inr st)
  obtain dfs wk fio where st: "st = (dfs, wk, fio)" by (cases st)
  have "fio = []"
    using scan_lines_marker_state [OF assms(1)] Inr st by blast
  then show ?thesis
    using Inr st assms(2) by (simp add: parse_tables_def)
qed

text \<open>
  C1. A section that is closed by a following marker line: when the marker \<open>m1\<close> opens
  a section with a non-empty name \<open>k\<close>, the lines \<open>body\<close> up to the next marker \<open>m2\<close>
  are what is parsed, as a header-less table exactly when \<open>k\<close> is \<open>Heading\<close> and with
  an inferred header otherwise, and the table is stored under the key \<open>k\<close>.
\<close>

theorem midfile_section_header_rule:
  assumes "startswith_bracket m1" and "startswith_bracket m2"
    and "\<forall>l \<in> set body. \<not> startswith_bracket l"
    and "section_name m1 = k" and "k \<noteq> []"
    and "scan_lines pd (pre @ [m1]) st0 = Inr (dfs, wk, fio)"
  shows "scan_lines pd (pre @ [m1] @ body @ [m2]) st0 =
           (case read_csv pd (concat body) (if k = ''Heading'' then NoHeader else Infer) of
              Inl e \<Rightarrow> Inl e
            | Inr d \<Rightarrow> Inr (AList.update (Some k) d dfs, Some (section_name m2), []))"
proof -
  obtain dfs0 wk0 fio0 where pre: "scan_lines pd pre st0 = Inr (dfs0, wk0, fio0)"
    using assms(6) by (auto simp: scan_lines_append split: sum.splits)
  have m1: "scan_lines pd [m1] (dfs0, wk0, fio0) = Inr (dfs, wk, fio)"
    using assms(6) pre by (simp add: scan_lines_append)
  have st: "wk = Some k \<and> fio = []"
    using m1 assms(1,4) by (auto split: if_splits sum.splits)
  have "scan_lines pd (pre @ [m1] @ body @ [m2]) st0 =
          scan_lines pd (body @ [m2]) (dfs, wk, fio)"
    using assms(6) scan_lines_append [of pd "pre @ [m1]" "body @ [m2]" st0] by simp
  also have "\<dots> = scan_lines pd [m2] (dfs, Some k, concat body)"
    using st assms(3,5) by (simp add: scan_lines_append scan_lines_body)
  also have "\<dots> =
      (case read_csv pd (concat body) (if k = ''Heading'' then NoHeader else Infer) of
         Inl e \<Rightarrow> Inl e
       | Inr d \<Rightarrow> Inr (AList.update (Some k) d dfs, Some (section_name m2), []))"
    using assms(2,5) by (simp add: header_for_def split: sum.splits)
  finally show ?thesis .
qed

theorem midfile_section_header_rule_witness:
  "scan_lines tsv_pandas
     ([] @ [''[Heading]'' @ [newline]] @ [''1'' @ [tab] @ ''2'' @ [newline]] @
      [''[B]'' @ [newline]])
     ([], None, []) =
   Inr ([(Some ''Heading'', \<lparr>columns = [Pos 0, Pos 1], rows = [[''1'', ''2'']]\<rparr>)],
        Some ''B'', [])"
proof -
  have "scan_lines tsv_pandas
     ([] @ [''[Heading]'' @ [newline]] @ [''1'' @ [tab] @ ''2'' @ [newline]] @
      [''[B]'' @ [newline]])
     ([], None, []) =
     (case read_csv tsv_pandas (concat [''1'' @ [tab] @ ''2'' @ [newline]])
             (if ''Heading'' = ''Heading'' then NoHeader else Infer) of
        Inl e \<Rightarrow> Inl e
      | Inr d \<Rightarrow>
          Inr (AList.update (Some ''Heading'') d [],
               Some (section_name (''[B]'' @ [newline])), []))"
    by (rule midfile_section_header_rule)
       (simp_all add: section_name_def strip_def newline_def)
  also have "\<dots> =
     Inr ([(Some ''Heading'', \<lparr>columns = [Pos 0, Pos 1], rows = [[''1'', ''2'']]\<rparr>)],
          Some ''B'', [])"
    by (simp add: tsv_pandas_def tsv_read_def section_name_def strip_def newline_def tab_def)
  finally show ?thesis .
qed

text \<open>
  C2. The section that is open at the end of the file: when the marker \<open>m\<close> opens a
  section with a non-empty name \<open>k\<close> and only data lines follow, the buffered lines are
  parsed with the header inferred, whatever \<open>k\<close> is, the name \<open>Heading\<close> included, and
  the table is stored under \<open>k\<close>.
\<close>

theorem eof_section_header_inferred:
  assumes "startswith_bracket m"
    and "\<forall>l \<in> set body. \<not> startswith_bracket l"
    and "section_name m = k" and "k \<noteq> []"
    and "scan_lines pd (pre @ [m]) ([], None, []) = Inr (dfs, wk, fio)"
  shows "parse_tables pd (pre @ [m] @ body) =
           (case read_csv pd (concat body) Infer of
              Inl e \<Rightarrow> Inl e
            | Inr d \<Rightarrow> Inr (AList.update (Some k) d dfs))"
proof -
  have st: "wk = Some k \<and> fio = []"
    using scan_lines_marker_state [OF assms(1,5)] assms(3) by simp
  have "scan_lines pd (pre @ [m] @ body) ([], None, []) = scan_lines pd body (dfs, wk, fio)"
    using assms(5) scan_lines_append [of pd "pre @ [m]" body "([], None, [])"] by simp
  also have "\<dots> = Inr (dfs, Some k, concat body)"
    using st assms(2,4) by (simp add: scan_lines_body)
  finally show ?thesis
    by (simp add: parse_tables_def)
qed

theorem eof_section_header_inferred_witness:
  "parse_tables tsv_pandas
     ([] @ [''[Heading]'' @ [newline]] @
      [''a'' @ [tab] @ ''b'' @ [newline], ''1'' @ [tab] @ ''2'' @ [newline]]) =
   Inr [(Some ''Heading'', \<lparr>columns = [Name ''a'', Name ''b''], rows = [[''1'', ''2'']]\<rparr>)]"
proof -
  have "parse_tables tsv_pandas
     ([] @ [''[Heading]'' @ [newline]] @
      [''a'' @ [tab] @ ''b'' @ [newline], ''1'' @ [tab] @ ''2'' @ [newline]]) =
     (case read_csv tsv_pandas
             (concat [''a'' @ [tab] @ ''b'' @ [newline], ''1'' @ [tab] @ ''2'' @ [newline]])
             Infer of
        Inl e \<Rightarrow> Inl e
      | Inr d \<Rightarrow> Inr (AList.update (Some ''Heading'') d []))"
    by (rule eof_section_header_inferred)
       (simp_all add: section_name_def strip_def newline_def)
  also have "\<dots> =
     Inr [(Some ''Heading'', \<lparr>columns = [Name ''a'', Name ''b''], rows = [[''1'', ''2'']]\<rparr>)]"
    by (simp add: tsv_pandas_def tsv_read_def newline_def tab_def)
  finally show ?thesis .
qed

lemma parse_tables_no_marker:
  assumes "\<forall>l \<in> set ls. \<not> startswith_bracket l"
  shows "parse_tables pd ls =
           (case read_csv pd [] Infer of Inl e \<Rightarrow> Inl e | Inr d \<Rightarrow> Inr [(None, d)])"
proof -
  have "scan_lines pd ls ([], None, []) = Inr ([], None, [])"
    using assms by (simp add: scan_lines_body)
  then show ?thesis
    by (simp add: parse_tables_def split: sum.splits)
qed

text \<open>
  C6. A text file without any marker line is to produce no tables. The parse after the
  loop is not guarded by \<open>if write_key:\<close> as the one in the loop is: it runs on the empty
  buffer with the key \<open>None\<close>. With a parser that rejects an empty buffer, as pandas
  does, \<open>_split_file\<close> raises on such a file and \<open>SplitTables.run\<close> stops there, so that
  the section of the text file listed after it is never written; with a parser that
  returns an empty table, that table is stored under \<open>None\<close> and written to \<open>None.tsv\<close>.
\<close>

theorem no_marker_file_unguarded:
  "parse_tables tsv_pandas (lines_of no_marker_text) = Inl EmptyDataError
   \<and> split_file tsv_pandas ''GSE1'' ''data/GSE1_extracted/a.txt'' fs_no_marker =
       (Inl EmptyDataError, fs_no_marker)
   \<and> split_run sample_env ''GSE1'' fs_no_marker = (Inl EmptyDataError, fs_no_marker)
   \<and> map_of (snd (split_run sample_env ''GSE1'' fs_no_marker)) ''data/GSE1_split/T.tsv'' = None
   \<and> parse_tables lenient_pandas (lines_of no_marker_text) =
       Inr [(None, \<lparr>columns = [], rows = []\<rparr>)]
   \<and> map_of (snd (split_file lenient_pandas ''GSE1'' ''data/GSE1_extracted/a.txt'' fs_no_marker))
       ''data/GSE1_split/None.tsv'' = Some (File (tsv_write \<lparr>columns = [], rows = []\<rparr>))"
  by code_simp

section \<open>Paths, directories and files\<close>

lemma endswith_iff: "endswith s p \<longleftrightarrow> (\<exists>x. s = x @ p)"
proof
  assume "endswith s p"
  then have "take (length p) (rev s) = rev p" by (simp add: endswith_def)
  then have "rev s = rev p @ drop (length p) (rev s)"
    by (metis append_take_drop_id)
  then have "s = rev (drop (length p) (rev s)) @ p"
    by (metis rev_append rev_rev_ident)
  then show "\<exists>x. s = x @ p" ..
next
  assume "\<exists>x. s = x @ p"
  then show "endswith s p" by (auto simp: endswith_def)
qed

lemma startswith_iff: "startswith s p \<longleftrightarrow> (\<exists>x. s = p @ x)"
  unfolding startswith_def
  by (metis append_eq_conv_conj append_take_drop_id)

lemma os_path_join_cases:
  "os_path_join a b = b \<or> os_path_join a b = a @ b \<or> os_path_join a b = a @ ''/'' @ b"
  by (simp add: os_path_join_def)

lemma endswith_join: "endswith b p \<Longrightarrow> endswith (os_path_join a b) p"
  using os_path_join_cases [of a b] by (auto simp: endswith_iff)

lemma os_path_join_rel:
  assumes "a \<noteq> []" and "\<not> endswith a ''/''" and "\<not> startswith b ''/''"
  shows "os_path_join a b = a @ ''/'' @ b"
  using assms by (simp add: os_path_join_def)

lemma child_name_iff:
  "child_name d q = Some n \<longleftrightarrow> q = d @ ''/'' @ n \<and> n \<noteq> [] \<and> CHR ''/'' \<notin> set n"
proof -
  have "take (length d + 1) q = d @ ''/'' \<longleftrightarrow> q = d @ ''/'' @ drop (length d + 1) q"
    by (metis append_take_drop_id append_eq_conv_conj length_append_singleton Suc_eq_plus1 append.assoc append_Cons append_Nil)
  then show ?thesis
    unfolding child_name_def Let_def
    by (auto simp: append_eq_conv_conj)
qed

lemma dirname_child:
  assumes "a \<noteq> []" and "\<not> endswith a ''/''" and "CHR ''/'' \<notin> set b"
  shows "dirname (a @ ''/'' @ b) = a"
proof -
  have la: "last a \<noteq> CHR ''/''"
    using assms(1,2) by (metis append_butlast_last_id endswith_iff)
  have ra: "dropWhile (\<lambda>c. c = CHR ''/'') (rev a) = rev a"
    using la assms(1) by (simp add: dropWhile_eq_self_iff hd_rev)
  have h: "rev (dropWhile (\<lambda>c. c \<noteq> CHR ''/'') (rev (a @ ''/'' @ b))) = a @ ''/''"
    using assms(3) by (auto simp add: dropWhile_append3)
  have ns: "\<not> set (a @ ''/'') \<subseteq> {CHR ''/''}"
    using la assms(1) last_in_set by fastforce
  show ?thesis
    unfolding dirname_def Let_def h using ns ra by simp
qed


lemma endswith_nonslash:
  assumes "endswith s (p @ [c])" and "c \<noteq> CHR ''/''"
  shows "s \<noteq> [] \<and> \<not> endswith s ''/''"
proof -
  obtain x where "s = x @ p @ [c]" using assms(1) by (auto simp: endswith_iff)
  then have "s \<noteq> [] \<and> last s = c" by simp
  then show ?thesis using assms(2) by (auto simp: endswith_iff)
qed

lemma output_shapes:
  "endswith (download_output ds) ''_RAW.tar''"
  "endswith (extract_output ds) ''_extracted''"
  "endswith (split_output ds) ''_split''"
  "endswith (final_output ds) ''_final''"
  "endswith (cleanup_output ds) ''cleanup_complete.txt''"
  unfolding download_output_def extract_output_def split_output_def final_output_def
    cleanup_output_def
  by (rule endswith_join, simp add: endswith_iff)+

lemma final_output_dir:
  "final_output ds \<noteq> [] \<and> \<not> endswith (final_output ds) ''/''"
  using endswith_nonslash [of "final_output ds" "''_fina''" "CHR ''l''"] output_shapes(4) [of ds]
  by simp

lemma split_output_dir:
  "split_output ds \<noteq> [] \<and> \<not> endswith (split_output ds) ''/''"
  using endswith_nonslash [of "split_output ds" "''_spli''" "CHR ''t''"] output_shapes(3) [of ds]
  by simp

lemma extract_output_dir:
  "extract_output ds \<noteq> [] \<and> \<not> endswith (extract_output ds) ''/''"
  using endswith_nonslash [of "extract_output ds" "''_extracte''" "CHR ''d''"]
    output_shapes(2) [of ds]
  by simp

lemma mkdir_all_map_of:
  "mkdir_all qs s = (r, s') \<Longrightarrow>
     map_of s' p = map_of s p \<or> (map_of s p = None \<and> p \<in> set qs \<and> map_of s' p = Some Dir)"
proof (induction qs arbitrary: s)
  case Nil
  then show ?case by simp
next
  case (Cons q qs)
  show ?case
  proof (cases "map_of s q")
    case None
    then have "mkdir_all qs (AList.update q Dir s) = (r, s')"
      using Cons.prems by simp
    from Cons.IH [OF this] show ?thesis
      using None by (auto simp: update_conv' split: if_splits)
  next
    case (Some v)
    show ?thesis
    proof (cases v)
      case (File c)
      then show ?thesis using Cons.prems Some by simp
    next
      case Dir
      then have "mkdir_all qs s = (r, s')" using Cons.prems Some by simp
      from Cons.IH [OF this] show ?thesis by auto
    qed
  qed
qed

lemma mkdir_all_success:
  "mkdir_all qs s = (Inr (), s') \<Longrightarrow> q \<in> set qs \<Longrightarrow> map_of s' q = Some Dir"
proof (induction qs arbitrary: s)
  case Nil
  then show ?case by simp
next
  case (Cons a qs)
  show ?case
  proof (cases "map_of s a")
    case None
    then have run: "mkdir_all qs (AList.update a Dir s) = (Inr (), s')"
      using Cons.prems by simp
    show ?thesis
    proof (cases "q \<in> set qs")
      case True
      then show ?thesis using Cons.IH [OF run] by simp
    next
      case False
      then have "q = a" using Cons.prems(2) by simp
      then show ?thesis
        using mkdir_all_map_of [OF run, of a] by (auto simp: update_conv')
    qed
  next
    case (Some v)
    then have v: "v = Dir" and run: "mkdir_all qs s = (Inr (), s')"
      using Cons.prems by (cases v; simp)+
    show ?thesis
    proof (cases "q \<in> set qs")
      case True
      then show ?thesis using Cons.IH [OF run] by simp
    next
      case False
      then have "q = a" using Cons.prems(2) by simp
      then show ?thesis
        using mkdir_all_map_of [OF run, of a] Some v by auto
    qed
  qed
qed

lemma path_prefixes_self:
  "acc @ cs \<noteq> [] \<Longrightarrow> \<not> endswith (acc @ cs) ''/'' \<Longrightarrow> acc @ cs \<in> set (path_prefixes acc cs)"
proof (induction cs arbitrary: acc)
  case Nil
  then show ?case by simp
next
  case (Cons c cs)
  have "(acc @ [c]) @ cs \<in> set (path_prefixes (acc @ [c]) cs)"
    using Cons.prems by (intro Cons.IH) simp_all
  then show ?case by auto
qed

lemma path_prefixes_length:
  "q \<in> set (path_prefixes acc cs) \<Longrightarrow> length q \<le> length acc + length cs"
proof (induction cs arbitrary: acc)
  case Nil
  then show ?case by (simp split: if_splits)
next
  case (Cons c cs)
  then show ?case by (fastforce split: if_splits)
qed

lemma makedirs_map_of:
  "makedirs d s = (r, s') \<Longrightarrow>
     map_of s' p = map_of s p \<or> (map_of s p = None \<and> length p \<le> length d \<and> map_of s' p = Some Dir)"
  using mkdir_all_map_of [of "path_prefixes [] d" s r s' p] path_prefixes_length [of p "[]" d]
  by (auto simp: makedirs_def)

lemma makedirs_success:
  assumes "makedirs d s = (Inr (), s')" and "d \<noteq> []" and "\<not> endswith d ''/''"
  shows "map_of s' d = Some Dir"
  using mkdir_all_success [of "path_prefixes [] d" s s' d] path_prefixes_self [of "[]" d] assms
  by (simp add: makedirs_def)

lemma trimmed_path:
  "os_path_join (final_output ds) ''Probes_trimmed.tsv'' = final_output ds @ ''/Probes_trimmed.tsv''"
  using final_output_dir [of ds] by (simp add: os_path_join_def startswith_def)

lemma makedirs_final_trimmed:
  assumes "makedirs (final_output ds) s = (r, s1)"
  shows "map_of s1 (os_path_join (final_output ds) ''Probes_trimmed.tsv'') =
         map_of s (os_path_join (final_output ds) ''Probes_trimmed.tsv'')"
  using makedirs_map_of [OF assms, of "os_path_join (final_output ds) ''Probes_trimmed.tsv''"]
  by (auto simp: trimmed_path)

lemma makedirs_keeps_file:
  "makedirs d s = (r, s') \<Longrightarrow> map_of s p = Some v \<Longrightarrow> map_of s' p = Some v"
  using makedirs_map_of [of d s r s' p] by auto

lemma for_each_remove_map_of:
  "for_each ns (\<lambda>n. remove (f n)) s = (Inr (), s') \<Longrightarrow>
     map_of s' p = (if p \<in> f ` set ns then None else map_of s p)"
proof (induction ns arbitrary: s)
  case Nil
  then show ?case by simp
next
  case (Cons n ns)
  from Cons.prems obtain s1 where rm: "remove (f n) s = (Inr (), s1)"
    and run1: "for_each ns (\<lambda>n. remove (f n)) s1 = (Inr (), s')"
    by (auto split: prod.splits sum.splits)
  have "s1 = AList.delete (f n) s"
    using rm by (auto simp: remove_def split: option.splits node.splits)
  then have run: "for_each ns (\<lambda>n. remove (f n)) (AList.delete (f n) s) = (Inr (), s')"
    using run1 by simp
  show ?case
    using Cons.IH [OF run] by (auto simp: delete_conv')
qed

lemma set_map_filter: "set (List.map_filter f xs) = {y. \<exists>x \<in> set xs. f x = Some y}"
  by (induction xs) (auto split: option.splits)

lemma listdir_names:
  "listdir d s = (Inr names, s') \<Longrightarrow>
     s' = s \<and> set names = {n. \<exists>q \<in> fst ` set s. child_name d q = Some n}"
  by (force simp: listdir_def set_map_filter split: if_splits)

section \<open>Properties of the column trimmer\<close>

text \<open>
  C4. Trimming a \<open>Probes.tsv\<close> that was read as a table lacking one of the seven target
  columns: \<open>RemoveColumns.run\<close> raises \<open>KeyError\<close> with the absent labels, which are at
  least one, and nothing has changed since the output directory was made: no trimmed
  table is written.
\<close>

theorem missing_column_fails:
  assumes "makedirs (final_output ds) s = (Inr (), s1)"
    and "map_of s (os_path_join (split_output ds) ''Probes.tsv'') = Some (File contents)"
    and "read_csv (pandas_of ev) contents Infer = Inr d"
    and "\<exists>c \<in> set COLUMNS_TO_DROP. Name c \<notin> set (columns d)"
  shows "remove_columns_run ev ds s =
           (Inl (KeyError (filter (\<lambda>c. Name c \<notin> set (columns d)) COLUMNS_TO_DROP)), s1)
         \<and> filter (\<lambda>c. Name c \<notin> set (columns d)) COLUMNS_TO_DROP \<noteq> []
         \<and> map_of s1 (os_path_join (final_output ds) ''Probes_trimmed.tsv'') =
           map_of s (os_path_join (final_output ds) ''Probes_trimmed.tsv'')"
proof -
  have ne: "filter (\<lambda>c. Name c \<notin> set (columns d)) COLUMNS_TO_DROP \<noteq> []"
    using assms(4) by (simp add: filter_empty_conv)
  then have dr: "drop_columns COLUMNS_TO_DROP d =
      Inl (KeyError (filter (\<lambda>c. Name c \<notin> set (columns d)) COLUMNS_TO_DROP))"
    by (simp add: drop_columns_def Let_def)
  have rd: "read_file (os_path_join (split_output ds) ''Probes.tsv'') s1 = (Inr contents, s1)"
    using makedirs_keeps_file [OF assms(1,2)] by (simp add: read_file_def)
  have "remove_columns_run ev ds s =
      (Inl (KeyError (filter (\<lambda>c. Name c \<notin> set (columns d)) COLUMNS_TO_DROP)), s1)"
    by (simp add: remove_columns_run_def assms(1,3) rd dr)
  then show ?thesis
    using ne makedirs_final_trimmed [OF assms(1)] by simp
qed

theorem missing_column_fails_witness:
  "remove_columns_run sample_env ''GSE1''
     (fs_with_probes (join_with [tab] [''Probe_Id'', ''Definition'', ''GeneSymbol''] @ [newline])) =
     (Inl (KeyError (filter (\<lambda>c. Name c \<notin> set (columns
                \<lparr>columns = [Name ''Probe_Id'', Name ''Definition'', Name ''GeneSymbol''],
                   rows = []\<rparr>)) COLUMNS_TO_DROP)),
      fs_with_probes (join_with [tab] [''Probe_Id'', ''Definition'', ''GeneSymbol''] @ [newline])
        @ [(''data/GSE1_final'', Dir)])
   \<and> filter (\<lambda>c. Name c \<notin> set (columns
                \<lparr>columns = [Name ''Probe_Id'', Name ''Definition'', Name ''GeneSymbol''],
                   rows = []\<rparr>)) COLUMNS_TO_DROP \<noteq> []
   \<and> map_of (fs_with_probes
                (join_with [tab] [''Probe_Id'', ''Definition'', ''GeneSymbol''] @ [newline])
              @ [(''data/GSE1_final'', Dir)])
        (os_path_join (final_output ''GSE1'') ''Probes_trimmed.tsv'') =
     map_of (fs_with_probes
                (join_with [tab] [''Probe_Id'', ''Definition'', ''GeneSymbol''] @ [newline]))
        (os_path_join (final_output ''GSE1'') ''Probes_trimmed.tsv'')"
  by (rule missing_column_fails
        [where contents = "join_with [tab] [''Probe_Id'', ''Definition'', ''GeneSymbol''] @ [newline]"];
      code_simp)

text \<open>
  C5, as the code has it. When all seven targets are among the columns, the trimmed
  table keeps exactly the other columns, in their original order, and is written to
  \<open>Probes_trimmed.tsv\<close> in the final directory. A table with the five columns
  \<open>Probe_Id\<close>, \<open>Definition\<close>, \<open>Ontology_Component\<close>, \<open>GeneSymbol\<close>, \<open>Probe_Sequence\<close>
  lacks four of the targets, so the stage fails on it with \<open>KeyError\<close>.
\<close>

theorem trim_keeps_other_columns:
  assumes "makedirs (final_output ds) s = (Inr (), s1)"
    and "map_of s (os_path_join (split_output ds) ''Probes.tsv'') = Some (File contents)"
    and "read_csv (pandas_of ev) contents Infer = Inr d"
    and "\<forall>c \<in> set COLUMNS_TO_DROP. Name c \<in> set (columns d)"
    and "map_of s (os_path_join (final_output ds) ''Probes_trimmed.tsv'') \<noteq> Some Dir"
  shows "\<exists>d'. drop_columns COLUMNS_TO_DROP d = Inr d'
           \<and> columns d' = filter (\<lambda>c. c \<notin> Name ` set COLUMNS_TO_DROP) (columns d)
           \<and> remove_columns_run ev ds s =
               (Inr (), AList.update (os_path_join (final_output ds) ''Probes_trimmed.tsv'')
                          (File (to_csv (pandas_of ev) d')) s1)"
proof -
  have "filter (\<lambda>c. Name c \<notin> set (columns d)) COLUMNS_TO_DROP = []"
    using assms(4) by (simp add: filter_empty_conv)
  then obtain d' where dr: "drop_columns COLUMNS_TO_DROP d = Inr d'"
    and cols: "columns d' = filter (\<lambda>c. c \<notin> Name ` set COLUMNS_TO_DROP) (columns d)"
    by (simp add: drop_columns_def Let_def)
  have rd: "read_file (os_path_join (split_output ds) ''Probes.tsv'') s1 = (Inr contents, s1)"
    using makedirs_keeps_file [OF assms(1,2)] by (simp add: read_file_def)
  have dir: "map_of s1 (final_output ds) = Some Dir"
    using makedirs_success [OF assms(1)] final_output_dir by simp
  have "dirname (final_output ds @ ''/'' @ ''Probes_trimmed.tsv'') = final_output ds"
    using final_output_dir by (intro dirname_child) simp_all
  then have par: "parent_is_dir s1 (os_path_join (final_output ds) ''Probes_trimmed.tsv'')"
    using dir by (simp add: parent_is_dir_def trimmed_path)
  have nd: "map_of s1 (os_path_join (final_output ds) ''Probes_trimmed.tsv'') \<noteq> Some Dir"
    using makedirs_final_trimmed [OF assms(1)] assms(5) by simp
  have "remove_columns_run ev ds s =
      (Inr (), AList.update (os_path_join (final_output ds) ''Probes_trimmed.tsv'')
                 (File (to_csv (pandas_of ev) d')) s1)"
    using par nd by (simp add: remove_columns_run_def assms(1,3) rd dr write_file_def)
  then show ?thesis using dr cols by blast
qed

theorem trim_keeps_other_columns_witness:
  "\<exists>d'. drop_columns COLUMNS_TO_DROP
           \<lparr>columns = map Name [''Probe_Id'', ''Definition'', ''Ontology_Component'',
               ''Ontology_Process'', ''Ontology_Function'', ''Synonyms'', ''Obsolete_Probe_Id'',
               ''GeneSymbol'', ''Probe_Sequence''],
             rows = [[''p1'', ''d'', ''oc'', ''op'', ''of'', ''sy'', ''ob'', ''g1'', ''ACGT'']]\<rparr>
         = Inr d'
       \<and> columns d' = [Name ''Probe_Id'', Name ''GeneSymbol'']
       \<and> remove_columns_run sample_env ''GSE1'' (fs_with_probes probes_all_columns) =
           (Inr (), AList.update (os_path_join (final_output ''GSE1'') ''Probes_trimmed.tsv'')
                      (File (to_csv (pandas_of sample_env) d'))
                      (fs_with_probes probes_all_columns @ [(''data/GSE1_final'', Dir)]))"
proof -
  have cols: "filter (\<lambda>c. c \<notin> Name ` set COLUMNS_TO_DROP)
      (columns \<lparr>columns = map Name [''Probe_Id'', ''Definition'', ''Ontology_Component'',
               ''Ontology_Process'', ''Ontology_Function'', ''Synonyms'', ''Obsolete_Probe_Id'',
               ''GeneSymbol'', ''Probe_Sequence''],
             rows = [[''p1'', ''d'', ''oc'', ''op'', ''of'', ''sy'', ''ob'', ''g1'', ''ACGT'']]\<rparr>)
      = [Name ''Probe_Id'', Name ''GeneSymbol'']"
    by code_simp
  have "\<exists>d'. drop_columns COLUMNS_TO_DROP
           \<lparr>columns = map Name [''Probe_Id'', ''Definition'', ''Ontology_Component'',
               ''Ontology_Process'', ''Ontology_Function'', ''Synonyms'', ''Obsolete_Probe_Id'',
               ''GeneSymbol'', ''Probe_Sequence''],
             rows = [[''p1'', ''d'', ''oc'', ''op'', ''of'', ''sy'', ''ob'', ''g1'', ''ACGT'']]\<rparr>
         = Inr d'
       \<and> columns d' = filter (\<lambda>c. c \<notin> Name ` set COLUMNS_TO_DROP)
           (columns \<lparr>columns = map Name [''Probe_Id'', ''Definition'', ''Ontology_Component'',
               ''Ontology_Process'', ''Ontology_Function'', ''Synonyms'', ''Obsolete_Probe_Id'',
               ''GeneSymbol'', ''Probe_Sequence''],
             rows = [[''p1'', ''d'', ''oc'', ''op'', ''of'', ''sy'', ''ob'', ''g1'', ''ACGT'']]\<rparr>)
       \<and> remove_columns_run sample_env ''GSE1'' (fs_with_probes probes_all_columns) =
           (Inr (), AList.update (os_path_join (final_output ''GSE1'') ''Probes_trimmed.tsv'')
                      (File (to_csv (pandas_of sample_env) d'))
                      (fs_with_probes probes_all_columns @ [(''data/GSE1_final'', Dir)]))"
    by (rule trim_keeps_other_columns [where contents = probes_all_columns]; code_simp)
  then show ?thesis
    unfolding cols .
qed

theorem trim_five_columns_counterexample:
  "remove_columns_run sample_env ''GSE1'' (fs_with_probes probes_five_columns) =
     (Inl (KeyError [''Ontology_Process'', ''Ontology_Function'', ''Synonyms'',
                     ''Obsolete_Probe_Id'']),
      fs_with_probes probes_five_columns @ [(''data/GSE1_final'', Dir)])"
  by code_simp

lemma cleanup_run_map_of:
  assumes "cleanup_run ev ds s = (Inr (), s')"
  shows "map_of s' p =
            (if p = cleanup_output ds then Some (File ''Cleanup completed successfully'')
             else if \<exists>n. child_name (final_output ds) p = Some n \<and> endswith n ''.txt''
                  then None
                  else map_of s p)"
proof -
  let ?d = "final_output ds"
  obtain names s1 where ls: "listdir ?d s = (Inr names, s1)"
    and rest: "bind_io
       (for_each (filter (\<lambda>filename. endswith filename ''.txt'') names)
          (\<lambda>filename. remove (os_path_join ?d filename)))
       (\<lambda>_. write_file (cleanup_output ds) ''Cleanup completed successfully'') s1 = (Inr (), s')"
    using assms unfolding cleanup_run_def
    by (cases "listdir ?d s") (auto split: sum.splits prod.splits)
  have s1: "s1 = s"
    and names: "set names = {n. \<exists>q \<in> fst ` set s. child_name ?d q = Some n}"
    using listdir_names [OF ls] by simp_all
  obtain s2 where rm: "for_each (filter (\<lambda>filename. endswith filename ''.txt'') names)
          (\<lambda>filename. remove (os_path_join ?d filename)) s = (Inr (), s2)"
    and wr: "write_file (cleanup_output ds) ''Cleanup completed successfully'' s2 = (Inr (), s')"
    using rest unfolding s1 by (auto split: sum.splits prod.splits)
  have s': "s' = AList.update (cleanup_output ds) (File ''Cleanup completed successfully'') s2"
    using wr by (auto simp: write_file_def split: if_splits)
  have join: "os_path_join ?d n = ?d @ ''/'' @ n" if "n \<in> set names" for n
  proof -
    from that names obtain q where "child_name ?d q = Some n" by auto
    then have "n \<noteq> []" "CHR ''/'' \<notin> set n" by (simp_all add: child_name_iff)
    then have "\<not> startswith n ''/''" by (cases n) (auto simp: startswith_def)
    then show ?thesis using final_output_dir [of ds] by (simp add: os_path_join_rel)
  qed
  have removed: "p \<in> os_path_join ?d ` set (filter (\<lambda>filename. endswith filename ''.txt'') names)
      \<longleftrightarrow> p \<in> fst ` set s \<and> (\<exists>n. child_name ?d p = Some n \<and> endswith n ''.txt'')" for p
  proof
    assume "p \<in> os_path_join ?d ` set (filter (\<lambda>filename. endswith filename ''.txt'') names)"
    then obtain n where n: "n \<in> set names" "endswith n ''.txt''" "p = os_path_join ?d n"
      by auto
    from n(1) names obtain q where q: "q \<in> fst ` set s" "child_name ?d q = Some n" by auto
    have "q = p" using q(2) n(3) join [OF n(1)] by (simp add: child_name_iff)
    then show "p \<in> fst ` set s \<and> (\<exists>n. child_name ?d p = Some n \<and> endswith n ''.txt'')"
      using q n(2) by auto
  next
    assume "p \<in> fst ` set s \<and> (\<exists>n. child_name ?d p = Some n \<and> endswith n ''.txt'')"
    then obtain n where n: "p \<in> fst ` set s" "child_name ?d p = Some n" "endswith n ''.txt''"
      by auto
    then have mem: "n \<in> set names" using names by auto
    have "p = os_path_join ?d n" using n(2) join [OF mem] by (simp add: child_name_iff)
    then show "p \<in> os_path_join ?d ` set (filter (\<lambda>filename. endswith filename ''.txt'') names)"
      using mem n(3) by auto
  qed
  have s2: "map_of s2 p =
      (if \<exists>n. child_name ?d p = Some n \<and> endswith n ''.txt'' then None else map_of s p)" for p
  proof (cases "p \<in> fst ` set s")
    case True
    then show ?thesis
      using for_each_remove_map_of [OF rm, of p] removed [of p] by auto
  next
    case False
    then have "map_of s p = None" by (simp add: map_of_eq_None_iff)
    then show ?thesis
      using for_each_remove_map_of [OF rm, of p] by auto
  qed
  show ?thesis
    using s2 by (simp add: s' update_conv')
qed

section \<open>Properties of the cleanup\<close>

text \<open>
  C3. \<open>Cleanup\<close> is to delete the text files and then write its marker. The code lists
  \<open>self.input().path\<close>, which is the output directory of \<open>RemoveColumns\<close>: on a file
  system with a text file in the extracted, the split and the final directory the run
  succeeds, the text files of the extracted and of the split directory are still there,
  only the one in the final directory is gone, and the marker is in the final
  directory, none in the split directory.
\<close>

theorem cleanup_leaves_split_text_files:
  "fst (cleanup_run sample_env ''GSE1'' fs_before_cleanup) = Inr ()
   \<and> map_of (snd (cleanup_run sample_env ''GSE1'' fs_before_cleanup))
       ''data/GSE1_split/notes.txt'' = Some (File ''n'')
   \<and> map_of (snd (cleanup_run sample_env ''GSE1'' fs_before_cleanup))
       ''data/GSE1_extracted/GPL.txt'' = Some (File ''src'')
   \<and> map_of (snd (cleanup_run sample_env ''GSE1'' fs_before_cleanup))
       ''data/GSE1_final/log.txt'' = None
   \<and> map_of (snd (cleanup_run sample_env ''GSE1'' fs_before_cleanup))
       ''data/GSE1_split/cleanup_complete.txt'' = None
   \<and> map_of (snd (cleanup_run sample_env ''GSE1'' fs_before_cleanup))
       ''data/GSE1_final/cleanup_complete.txt'' = Some (File ''Cleanup completed successfully'')"
  by code_simp

section \<open>Sections that share a name\<close>




lemma for_each_write_other:
  "for_each xs (\<lambda>(key, d). write_file (f key) (g d)) s = (r, s') \<Longrightarrow>
     p \<notin> f ` fst ` set xs \<Longrightarrow> map_of s' p = map_of s p"
proof (induction xs arbitrary: s)
  case Nil
  then show ?case by simp
next
  case (Cons x xs)
  obtain key d where x: "x = (key, d)" by (cases x)
  show ?case
  proof (cases "write_file (f key) (g d) s")
    case (Pair r1 s1)
    have s1: "map_of s1 p = map_of s p"
      using Pair Cons.prems(2) x by (auto simp: write_file_def update_conv' split: if_splits)
    show ?thesis
    proof (cases r1)
      case (Inl e)
      then show ?thesis using Cons.prems(1) Pair x s1 by simp
    next
      case (Inr u)
      then have "for_each xs (\<lambda>(key, d). write_file (f key) (g d)) s1 = (r, s')"
        using Cons.prems(1) Pair x by simp
      from Cons.IH [OF this] Cons.prems(2) s1 show ?thesis by simp
    qed
  qed
qed






section \<open>Properties of the orchestrator\<close>

lemma fs_le_refl: "fs_le s s"
  by (simp add: fs_le_def)

lemma fs_le_trans: "fs_le s s1 \<Longrightarrow> fs_le s1 s2 \<Longrightarrow> fs_le s s2"
  by (simp add: fs_le_def)

lemma io_leD: "io_le m \<Longrightarrow> m s = (r, s') \<Longrightarrow> fs_le s s'"
  by (auto simp: io_le_def dest: spec [of _ s])

lemma io_le_makedirs: "io_le (makedirs d)"
  unfolding io_le_def fs_le_def path_exists_def
proof (intro allI impI)
  fix s :: fs and p
  assume "map_of s p \<noteq> None"
  then show "map_of (snd (makedirs d s)) p \<noteq> None"
    using makedirs_map_of [of d s "fst (makedirs d s)" "snd (makedirs d s)" p] by auto
qed

lemma io_le_write_file: "io_le (write_file p c)"
  by (auto simp: io_le_def write_file_def fs_le_def path_exists_def update_conv')

lemma io_le_read_file: "io_le (read_file p)"
  by (auto simp: io_le_def read_file_def fs_le_refl split: option.splits node.splits)

lemma io_le_listdir: "io_le (listdir d)"
  by (auto simp: io_le_def listdir_def fs_le_refl)

lemma io_le_raise: "io_le (raise_io e)"
  by (simp add: io_le_def fs_le_refl)

lemma io_le_return: "io_le (return_io x)"
  by (simp add: io_le_def fs_le_refl)

lemma io_le_bind: "io_le m \<Longrightarrow> (\<And>x. io_le (f x)) \<Longrightarrow> io_le (bind_io m f)"
  unfolding io_le_def
proof
  fix s
  assume m: "\<forall>s. fs_le s (snd (m s))" and f: "\<And>x. \<forall>s. fs_le s (snd (f x s))"
  obtain r1 s1 where ms: "m s = (r1, s1)" by (cases "m s")
  have le1: "fs_le s s1" using m ms by (metis snd_conv)
  show "fs_le s (snd (bind_io m f s))"
  proof (cases r1)
    case (Inl e)
    then show ?thesis using ms le1 by simp
  next
    case (Inr x)
    then have "snd (bind_io m f s) = snd (f x s1)" using ms by simp
    then show ?thesis using le1 f [of x] fs_le_trans by metis
  qed
qed

lemma io_le_for_each: "(\<And>x. io_le (body x)) \<Longrightarrow> io_le (for_each xs body)"
  unfolding io_le_def
proof (induction xs)
  case Nil
  then show ?case by (simp add: fs_le_refl)
next
  case (Cons x xs)
  show ?case
  proof
    fix s
    obtain r1 s1 where b: "body x s = (r1, s1)" by (cases "body x s")
    have le1: "fs_le s s1" using Cons.prems [of x] b by (metis snd_conv)
    show "fs_le s (snd (for_each (x # xs) body s))"
    proof (cases r1)
      case (Inl e)
      then show ?thesis using b le1 by simp
    next
      case (Inr u)
      then have "snd (for_each (x # xs) body s) = snd (for_each xs body s1)" using b by simp
      then show ?thesis using le1 Cons.IH [OF Cons.prems] fs_le_trans by metis
    qed
  qed
qed

lemma io_le_case_sum: "(\<And>e. io_le (f e)) \<Longrightarrow> (\<And>x. io_le (g x)) \<Longrightarrow> io_le (case_sum f g v)"
  by (cases v) simp_all

lemma io_le_case_prod: "(\<And>a b. io_le (f a b)) \<Longrightarrow> io_le (case_prod f x)"
  by (cases x) simp

lemmas io_le_intros =
  io_le_bind io_le_for_each io_le_case_sum io_le_case_prod io_le_makedirs io_le_write_file
  io_le_read_file io_le_listdir io_le_raise io_le_return

lemma io_le_download_run: "io_le (download_run ev ds)"
  unfolding download_run_def by (intro io_le_intros)

lemma io_le_extract_run: "io_le (extract_run ev ds)"
  unfolding extract_run_def extractall_def by (intro io_le_intros)

lemma io_le_split_run: "io_le (split_run ev ds)"
  unfolding split_run_def split_file_def write_tables_def by (intro io_le_intros)

lemma io_le_remove_columns_run: "io_le (remove_columns_run ev ds)"
  unfolding remove_columns_run_def by (intro io_le_intros)

lemma endswith_both:
  assumes "endswith q a" and "endswith q b" and "length b \<le> length a"
  shows "endswith a b"
proof -
  have "take (length b) (rev a) = take (length b) (take (length a) (rev q))"
    using assms(1) by (simp add: endswith_def)
  also have "\<dots> = take (length b) (rev q)"
    using assms(3) by (simp add: min_def)
  finally show ?thesis using assms(2) by (simp add: endswith_def)
qed

lemma outputs_not_txt:
  "\<not> endswith (download_output ds) ''.txt''"
  "\<not> endswith (extract_output ds) ''.txt''"
  "\<not> endswith (split_output ds) ''.txt''"
  "\<not> endswith (final_output ds) ''.txt''"
  using endswith_both [OF output_shapes(1) [of ds], of "''.txt''"]
    endswith_both [OF output_shapes(2) [of ds], of "''.txt''"]
    endswith_both [OF output_shapes(3) [of ds], of "''.txt''"]
    endswith_both [OF output_shapes(4) [of ds], of "''.txt''"]
  by (auto simp: endswith_def)

lemma child_txt_endswith:
  assumes "child_name d p = Some n" and "endswith n ''.txt''"
  shows "endswith p ''.txt''"
  using assms by (auto simp: child_name_iff endswith_iff)

lemma cleanup_run_keeps:
  assumes "cleanup_run ev ds s = (Inr (), s')" and "path_exists s q" and "\<not> endswith q ''.txt''"
  shows "path_exists s' q"
  using cleanup_run_map_of [OF assms(1), of q] assms(2,3) child_txt_endswith [of "final_output ds" q]
  by (auto simp: path_exists_def)

lemma cleanup_run_marker:
  assumes "cleanup_run ev ds s = (Inr (), s')"
  shows "path_exists s' (cleanup_output ds)"
  using cleanup_run_map_of [OF assms, of "cleanup_output ds"] by (simp add: path_exists_def)

lemma makedirs_then_exists:
  assumes "bind_io (makedirs d) f s = (Inr (), s')" and "\<And>x. io_le (f x)"
    and "d \<noteq> [] \<and> \<not> endswith d ''/''"
  shows "path_exists s' d"
proof -
  obtain s1 where mk: "makedirs d s = (Inr (), s1)" and rest: "f () s1 = (Inr (), s')"
    using assms(1) by (auto split: prod.splits sum.splits)
  have "path_exists s1 d"
    using makedirs_success [OF mk] assms(3) by (simp add: path_exists_def)
  moreover have "fs_le s1 s'" using assms(2) rest by (rule io_leD)
  ultimately show ?thesis by (simp add: fs_le_def)
qed

lemma download_run_exists:
  assumes "download_run ev ds s = (Inr (), s')"
  shows "path_exists s' (download_output ds)"
proof -
  obtain s1 bytes where "write_file (download_output ds) bytes s1 = (Inr (), s')"
    using assms unfolding download_run_def
    by (auto split: prod.splits sum.splits)
  then show ?thesis by (auto simp: write_file_def path_exists_def update_conv' split: if_splits)
qed

lemma extract_run_exists:
  assumes "extract_run ev ds s = (Inr (), s')"
  shows "path_exists s' (extract_output ds)"
  using assms unfolding extract_run_def extractall_def
  by (rule makedirs_then_exists) (intro io_le_intros, rule extract_output_dir)

lemma split_run_exists:
  assumes "split_run ev ds s = (Inr (), s')"
  shows "path_exists s' (split_output ds)"
  using assms unfolding split_run_def split_file_def write_tables_def
  by (rule makedirs_then_exists) (intro io_le_intros, rule split_output_dir)

lemma remove_columns_run_exists:
  assumes "remove_columns_run ev ds s = (Inr (), s')"
  shows "path_exists s' (final_output ds)"
  using assms unfolding remove_columns_run_def
  by (rule makedirs_then_exists) (intro io_le_intros, rule final_output_dir)

lemma run_output_exists:
  assumes "run ev ds t s = (Inr (), s')" and "output_path ds t = Some p"
  shows "path_exists s' p"
  using assms download_run_exists extract_run_exists split_run_exists
    remove_columns_run_exists cleanup_run_marker
  by (cases t) auto

lemma run_keeps_outputs:
  assumes "run ev ds t s = (Inr (), s')" and "output_path ds u = Some q" and "path_exists s q"
  shows "path_exists s' q"
proof (cases "t = Cleanup")
  case True
  then have run: "cleanup_run ev ds s = (Inr (), s')" using assms(1) by simp
  show ?thesis
  proof (cases "u = Cleanup")
    case True
    then show ?thesis using cleanup_run_marker [OF run] assms(2) by simp
  next
    case False
    then have "\<not> endswith q ''.txt''"
      using assms(2) outputs_not_txt [of ds] by (cases u) auto
    then show ?thesis using cleanup_run_keeps [OF run assms(3)] by simp
  qed
next
  case False
  then have "io_le (run ev ds t)"
    using io_le_download_run io_le_extract_run io_le_split_run io_le_remove_columns_run
      io_le_return
    by (cases t) auto
  then have "fs_le s s'" using assms(1) by (rule io_leD)
  then show ?thesis using assms(3) by (simp add: fs_le_def)
qed

lemma run_chain_append:
  "run_chain ev ds (xs @ ys) s =
     (case run_chain ev ds xs s of
        (tr, Inl e, s1) \<Rightarrow> (tr, Inl e, s1)
      | (tr, Inr u, s1) \<Rightarrow>
          (case run_chain ev ds ys s1 of (tr', r, s2) \<Rightarrow> (tr @ tr', r, s2)))"
  by (induction xs arbitrary: s) (auto split: option.splits prod.splits sum.splits)

lemma run_chain_subseq:
  "subseq (fst (run_chain ev ds ts s)) (filter (\<lambda>t. output_path ds t \<noteq> None) ts)"
proof (induction ts arbitrary: s)
  case Nil
  show ?case by simp
next
  case (Cons t ts)
  show ?case
  proof (cases "output_path ds t")
    case None
    then show ?thesis using Cons.IH [of s] by simp
  next
    case (Some p)
    show ?thesis
    proof (cases "path_exists s p")
      case True
      then show ?thesis using Cons.IH [of s] Some by (auto intro: list_emb_Cons)
    next
      case False
      obtain r s' where r: "run ev ds t s = (r, s')" by (cases "run ev ds t s")
      show ?thesis
      proof (cases r)
        case (Inl e)
        then show ?thesis using Some False r by simp
      next
        case (Inr u)
        obtain tr r2 s2 where rest: "run_chain ev ds ts s' = (tr, r2, s2)"
          by (cases "run_chain ev ds ts s'")
        have "subseq tr (filter (\<lambda>t. output_path ds t \<noteq> None) ts)"
          using Cons.IH [of s'] rest by simp
        then show ?thesis using Some False r Inr rest by simp
      qed
    qed
  qed
qed

lemma run_chain_success:
  assumes "run_chain ev ds ts s = (tr, Inr (), s1)"
  shows "(\<forall>t \<in> set ts. \<forall>p. output_path ds t = Some p \<longrightarrow> path_exists s1 p)
       \<and> (\<forall>u q. output_path ds u = Some q \<longrightarrow> path_exists s q \<longrightarrow> path_exists s1 q)"
  using assms
proof (induction ts arbitrary: s tr)
  case Nil
  then show ?case by simp
next
  case (Cons t ts)
  show ?case
  proof (cases "output_path ds t")
    case None
    then have "run_chain ev ds ts s = (tr, Inr (), s1)" using Cons.prems by simp
    from Cons.IH [OF this] None show ?thesis by simp
  next
    case (Some p)
    show ?thesis
    proof (cases "path_exists s p")
      case True
      then have "run_chain ev ds ts s = (tr, Inr (), s1)" using Cons.prems Some by simp
      from Cons.IH [OF this] Some True show ?thesis by auto
    next
      case False
      then obtain s' tr' where r: "run ev ds t s = (Inr (), s')"
        and rest: "run_chain ev ds ts s' = (tr', Inr (), s1)"
        using Cons.prems Some by (auto split: prod.splits sum.splits)
      have own: "path_exists s' p" using run_output_exists [OF r Some] .
      have keep: "output_path ds u = Some q \<Longrightarrow> path_exists s q \<Longrightarrow> path_exists s' q" for u q
        using run_keeps_outputs [OF r] by simp
      from Cons.IH [OF rest] own keep Some show ?thesis by auto
    qed
  qed
qed

lemma run_chain_all_complete:
  assumes "\<forall>t \<in> set ts. \<forall>p. output_path ds t = Some p \<longrightarrow> path_exists s p"
  shows "run_chain ev ds ts s = ([], Inr (), s)"
  using assms by (induction ts) (auto split: option.splits)

lemma resolve_chain_Pipeline:
  "resolve_chain Pipeline =
     [DownloadDataset, ExtractArchive, SplitTables, RemoveColumns, Cleanup, Pipeline]"
  by simp

text \<open>
  C7. Resolved from the wrapper, the chain is Download, Extract, Split, Trim Columns,
  Cleanup and the wrapper itself, which has nothing to run. Whatever the file system
  and the collaborators, the stages that are run form a subsequence of that order, so
  none is run out of order; and a stage of the chain that is reached without a failure
  while its output target does not exist is run: the trace continues with it.
\<close>

theorem orchestrator_fixed_order:
  "resolve_chain Pipeline =
     [DownloadDataset, ExtractArchive, SplitTables, RemoveColumns, Cleanup, Pipeline]
   \<and> subseq (fst (orchestrate ev ds Pipeline s))
        [DownloadDataset, ExtractArchive, SplitTables, RemoveColumns, Cleanup]
   \<and> (\<forall>before t after tr s1 p.
         resolve_chain Pipeline = before @ t # after
         \<and> run_chain ev ds before s = (tr, Inr (), s1)
         \<and> output_path ds t = Some p \<and> \<not> path_exists s1 p
         \<longrightarrow> (\<exists>tr'. fst (orchestrate ev ds Pipeline s) = tr @ t # tr'))"
proof (intro conjI allI impI)
  show "resolve_chain Pipeline =
     [DownloadDataset, ExtractArchive, SplitTables, RemoveColumns, Cleanup, Pipeline]"
    by (rule resolve_chain_Pipeline)
  show "subseq (fst (orchestrate ev ds Pipeline s))
        [DownloadDataset, ExtractArchive, SplitTables, RemoveColumns, Cleanup]"
    using run_chain_subseq [of ev ds "resolve_chain Pipeline" s]
    by (simp add: orchestrate_def)
next
  fix before t after tr s1 p
  assume h: "resolve_chain Pipeline = before @ t # after
         \<and> run_chain ev ds before s = (tr, Inr (), s1)
         \<and> output_path ds t = Some p \<and> \<not> path_exists s1 p"
  then have "\<exists>tr'. fst (run_chain ev ds (t # after) s1) = t # tr'"
    by (auto split: prod.splits sum.splits)
  then obtain tr' where "fst (run_chain ev ds (t # after) s1) = t # tr'" ..
  then have "fst (run_chain ev ds (before @ t # after) s) = tr @ t # tr'"
    using h unfolding run_chain_append [of ev ds before "t # after" s]
    by (auto split: prod.splits)
  then show "\<exists>tr'. fst (orchestrate ev ds Pipeline s) = tr @ t # tr'"
    using h unfolding orchestrate_def by metis
qed

theorem orchestrator_fixed_order_witness:
  "(resolve_chain Pipeline =
      [DownloadDataset] @ ExtractArchive # [SplitTables, RemoveColumns, Cleanup, Pipeline]
    \<and> run_chain sample_env ''GSE1'' [DownloadDataset] fs_downloaded =
        ([], Inr (), fs_downloaded)
    \<and> output_path ''GSE1'' ExtractArchive = Some ''data/GSE1_extracted''
    \<and> \<not> path_exists fs_downloaded ''data/GSE1_extracted'')
   \<and> (\<exists>tr'. fst (orchestrate sample_env ''GSE1'' Pipeline fs_downloaded) =
                [] @ ExtractArchive # tr')"
proof -
  have h: "resolve_chain Pipeline =
      [DownloadDataset] @ ExtractArchive # [SplitTables, RemoveColumns, Cleanup, Pipeline]
    \<and> run_chain sample_env ''GSE1'' [DownloadDataset] fs_downloaded =
        ([], Inr (), fs_downloaded)
    \<and> output_path ''GSE1'' ExtractArchive = Some ''data/GSE1_extracted''
    \<and> \<not> path_exists fs_downloaded ''data/GSE1_extracted''"
    by code_simp
  from orchestrator_fixed_order [of sample_env "''GSE1''" fs_downloaded] h
  have "\<exists>tr'. fst (orchestrate sample_env ''GSE1'' Pipeline fs_downloaded) =
                [] @ ExtractArchive # tr'"
    by blast
  with h show ?thesis by (rule conjI)
qed

text \<open>
  C8. After a run of the whole chain that succeeded, the output target of every stage
  exists, so a second run on the file system the first one left runs no stage and
  leaves that file system as it is.
\<close>

theorem second_run_does_nothing:
  assumes "orchestrate ev ds Pipeline s = (tr, Inr (), s1)"
  shows "orchestrate ev ds Pipeline s1 = ([], Inr (), s1)
       \<and> (\<forall>t p. output_path ds t = Some p \<longrightarrow> path_exists s1 p)"
proof -
  have run: "run_chain ev ds (resolve_chain Pipeline) s = (tr, Inr (), s1)"
    using assms by (simp only: orchestrate_def)
  have all: "\<forall>t \<in> set (resolve_chain Pipeline). \<forall>p. output_path ds t = Some p \<longrightarrow> path_exists s1 p"
    using run_chain_success [OF run] by blast
  have "run_chain ev ds (resolve_chain Pipeline) s1 = ([], Inr (), s1)"
    using all by (rule run_chain_all_complete)
  moreover have "\<forall>t p. output_path ds t = Some p \<longrightarrow> path_exists s1 p"
  proof (intro allI impI)
    fix t p
    assume "output_path ds t = Some p"
    moreover have "t \<in> set (resolve_chain Pipeline)"
      unfolding resolve_chain_Pipeline by (cases t) simp_all
    ultimately show "path_exists s1 p" using all by blast
  qed
  ultimately show ?thesis by (simp only: orchestrate_def) 
qed

theorem second_run_does_nothing_witness:
  "orchestrate sample_env ''GSE1'' Pipeline [] =
     (fst (orchestrate sample_env ''GSE1'' Pipeline []), Inr (),
      snd (snd (orchestrate sample_env ''GSE1'' Pipeline [])))
   \<and> orchestrate sample_env ''GSE1'' Pipeline
        (snd (snd (orchestrate sample_env ''GSE1'' Pipeline []))) =
       ([], Inr (), snd (snd (orchestrate sample_env ''GSE1'' Pipeline [])))"
proof -
  have run: "orchestrate sample_env ''GSE1'' Pipeline [] =
     (fst (orchestrate sample_env ''GSE1'' Pipeline []), Inr (),
      snd (snd (orchestrate sample_env ''GSE1'' Pipeline [])))"
    by code_simp
  from second_run_does_nothing [OF run]
  have "orchestrate sample_env ''GSE1'' Pipeline
        (snd (snd (orchestrate sample_env ''GSE1'' Pipeline []))) =
       ([], Inr (), snd (snd (orchestrate sample_env ''GSE1'' Pipeline [])))"
    by (rule conjunct1)
  with run show ?thesis by (rule conjI)
qed

section \<open>The split stage on a file that ends in a marker\<close>

lemma split_file_keeps_other:
  assumes "split_file p ds filepath s = (r, s')" and "\<not> endswith q ''.tsv''"
  shows "map_of s' q = map_of s q"
proof (cases "read_file filepath s")
  case (Pair r1 s1)
  then have s1: "s1 = s" by (auto simp: read_file_def split: option.splits node.splits)
  show ?thesis
  proof (cases r1)
    case (Inl e)
    then show ?thesis using assms(1) Pair s1 by (simp add: split_file_def)
  next
    case (Inr contents)
    show ?thesis
    proof (cases "parse_tables p (lines_of contents)")
      case (Inl e)
      then show ?thesis using assms(1) Pair s1 Inr by (simp add: split_file_def)
    next
      case (Inr dfs)
      then have wr: "for_each dfs (\<lambda>(key, d). write_file
                 (os_path_join (split_output ds) (tsv_name key)) (to_csv p d)) s = (r, s')"
        using assms(1) Pair s1 \<open>r1 = Inr contents\<close>
        by (simp add: split_file_def write_tables_def)
      have "endswith (os_path_join (split_output ds) (tsv_name key)) ''.tsv''" for key
        by (rule endswith_join) (cases key; simp add: endswith_iff)
      then have "q \<notin> (\<lambda>key. os_path_join (split_output ds) (tsv_name key)) ` fst ` set dfs"
        using assms(2) by auto
      then show ?thesis using for_each_write_other [OF wr] by simp
    qed
  qed
qed

lemma for_each_fails:
  assumes "y \<in> set xs" and "P s"
    and "\<And>x t r t'. body x t = (r, t') \<Longrightarrow> P t \<Longrightarrow> P t'"
    and "\<And>t. P t \<Longrightarrow> \<exists>e. fst (body y t) = Inl e"
  shows "\<exists>e. fst (for_each xs body s) = Inl e"
  using assms(1,2)
proof (induction xs arbitrary: s)
  case Nil
  then show ?case by simp
next
  case (Cons x xs)
  obtain r1 s1 where b: "body x s = (r1, s1)" by (cases "body x s")
  have P1: "P s1" using assms(3) [OF b Cons.prems(2)] .
  show ?case
  proof (cases r1)
    case (Inl e)
    then show ?thesis using b by simp
  next
    case (Inr u)
    then have step: "for_each (x # xs) body s = for_each xs body s1" using b by simp
    show ?thesis
    proof (cases "y = x")
      case True
      then show ?thesis using assms(4) [OF Cons.prems(2)] b Inr by simp
    next
      case False
      then have "y \<in> set xs" using Cons.prems(1) by simp
      from Cons.IH [OF this P1] step show ?thesis by simp
    qed
  qed
qed

lemma txt_not_tsv: "endswith q ''.txt'' \<Longrightarrow> \<not> endswith q ''.tsv''"
  using endswith_both [of q "''.txt''" "''.tsv''"] by (auto simp: endswith_def)

text \<open>
  C10. A text file whose last line is a marker line: given that the parser rejects an
  empty buffer (pandas raises \<open>EmptyDataError\<close> there), \<open>_split_file\<close> raises on it, at
  the latest at the parse after the loop, whose buffer is empty, and it has written
  nothing; and \<open>SplitTables.run\<close> fails whenever the extracted directory holds such a
  file with the extension \<open>.txt\<close>.
\<close>

theorem trailing_marker_file_fails:
  assumes "lines_of contents = pre @ [m]" and "startswith_bracket m"
    and "read_csv (pandas_of ev) [] Infer = Inl e"
  shows "(\<forall>s filepath. map_of s filepath = Some (File contents) \<longrightarrow>
            (\<exists>e'. split_file (pandas_of ev) ds filepath s = (Inl e', s)))
       \<and> (\<forall>s filename.
            filename \<noteq> [] \<and> CHR ''/'' \<notin> set filename \<and> endswith filename ''.txt''
            \<and> map_of s (os_path_join (extract_output ds) filename) = Some (File contents) \<longrightarrow>
            (\<exists>e'. fst (split_run ev ds s) = Inl e'))"
proof (intro conjI allI impI)
  fix s :: fs and filepath :: string
  assume hfile: "map_of s filepath = Some (File contents)"
  obtain e' where "parse_tables (pandas_of ev) (lines_of contents) = Inl e'"
    using parse_tables_trailing_marker [OF assms(2,3)] assms(1) by auto
  then show "\<exists>e'. split_file (pandas_of ev) ds filepath s = (Inl e', s)"
    using hfile by (auto simp add: split_file_def read_file_def)
next
  fix s :: fs and filename :: string
  assume h: "filename \<noteq> [] \<and> CHR ''/'' \<notin> set filename \<and> endswith filename ''.txt''
            \<and> map_of s (os_path_join (extract_output ds) filename) = Some (File contents)"
  let ?d = "extract_output ds"
  let ?path = "os_path_join ?d filename"
  have rel: "\<not> startswith filename ''/''"
    using h by (cases filename) (auto simp: startswith_def)
  have path: "?path = ?d @ ''/'' @ filename"
    using extract_output_dir [of ds] rel by (simp add: os_path_join_rel)
  have child: "child_name ?d ?path = Some filename"
    using h by (simp add: path child_name_iff)
  have nottsv: "\<not> endswith ?path ''.tsv''"
    using h endswith_join [of filename "''.txt''" ?d] txt_not_tsv by blast
  have fails: "\<exists>e'. fst (split_file (pandas_of ev) ds ?path t) = Inl e'"
    if "map_of t ?path = Some (File contents)" for t
  proof -
    obtain e' where "parse_tables (pandas_of ev) (lines_of contents) = Inl e'"
      using parse_tables_trailing_marker [OF assms(2,3)] assms(1) by auto
    then show ?thesis using that by (auto simp add: split_file_def read_file_def)
  qed
  obtain r1 s1 where mk: "makedirs (split_output ds) s = (r1, s1)"
    by (cases "makedirs (split_output ds) s")
  have file1: "map_of s1 ?path = Some (File contents)"
    using makedirs_keeps_file [OF mk] h by simp
  show "\<exists>e'. fst (split_run ev ds s) = Inl e'"
  proof (cases r1)
    case (Inl e1)
    then show ?thesis using mk by (simp add: split_run_def)
  next
    case (Inr u)
    show ?thesis
    proof (cases "map_of s1 ?d = Some Dir")
      case False
      then show ?thesis using mk Inr by (simp add: split_run_def listdir_def)
    next
      case True
      let ?names = "remdups (List.map_filter (child_name ?d) (map fst s1))"
      have ls: "listdir ?d s1 = (Inr ?names, s1)" using True by (simp add: listdir_def)
      have "?path \<in> fst ` set s1"
        using file1 by (metis map_of_eq_None_iff option.distinct(1))
      then have "filename \<in> set ?names"
        using child by (force simp: set_map_filter)
      then have mem: "filename \<in> set (filter (\<lambda>filename. endswith filename ''.txt'') ?names)"
        using h by simp
      have "\<exists>e'. fst (for_each (filter (\<lambda>filename. endswith filename ''.txt'') ?names)
              (\<lambda>filename. split_file (pandas_of ev) ds (os_path_join ?d filename)) s1) = Inl e'"
        using mem file1
      proof (rule for_each_fails [where P = "\<lambda>t. map_of t ?path = Some (File contents)"])
        fix x t r t'
        assume "split_file (pandas_of ev) ds (os_path_join ?d x) t = (r, t')"
          and "map_of t ?path = Some (File contents)"
        then show "map_of t' ?path = Some (File contents)"
          using split_file_keeps_other [OF _ nottsv] by simp
      next
        fix t
        assume "map_of t ?path = Some (File contents)"
        then show "\<exists>e'. fst (split_file (pandas_of ev) ds ?path t) = Inl e'"
          by (rule fails)
      qed
      then show ?thesis
        using mk Inr ls by (simp add: split_run_def)
    qed
  qed
qed

theorem trailing_marker_file_fails_witness:
  "(\<exists>e'. split_file (pandas_of sample_env) ''GSE1'' ''data/GSE1_extracted/a.txt''
            fs_trailing_marker = (Inl e', fs_trailing_marker))
   \<and> (\<exists>e'. fst (split_run sample_env ''GSE1'' fs_trailing_marker) = Inl e')"
proof -
  have lines: "lines_of trailing_marker_text = [''[A]'' @ [newline], ''x'' @ [newline]] @ [''[B]'']"
    by code_simp
  have marker: "startswith_bracket ''[B]''"
    by simp
  have empty: "read_csv (pandas_of sample_env) [] Infer = Inl EmptyDataError"
    by code_simp
  have stored: "map_of fs_trailing_marker ''data/GSE1_extracted/a.txt'' =
      Some (File trailing_marker_text)"
    by code_simp
  have entry: "''a.txt'' \<noteq> [] \<and> CHR ''/'' \<notin> set ''a.txt'' \<and> endswith ''a.txt'' ''.txt''
      \<and> map_of fs_trailing_marker (os_path_join (extract_output ''GSE1'') ''a.txt'') =
          Some (File trailing_marker_text)"
    by code_simp
  from trailing_marker_file_fails [OF lines marker empty, of "''GSE1''"] stored entry
  show ?thesis by blast
qed

end
